theory Spec2Isabelle
  imports Complex_Main
begin

section \<open>The search engine shared by the three programs\<close>

text \<open>
  The repository holds three Python programs, \<^verbatim>\<open>element_search.py\<close>,
  \<^verbatim>\<open>file_system_search.py\<close> and \<^verbatim>\<open>rights_search.py\<close>. Each one carries its own
  copy of the classes \<^verbatim>\<open>Problem\<close> and \<^verbatim>\<open>Node\<close>, of the two sentinels and of
  \<^verbatim>\<open>expand\<close>; the copies agree statement by statement, so they are embedded once. The
  functions \<^verbatim>\<open>depth_limited_search\<close> and \<^verbatim>\<open>iterative_deepening_search\<close> differ
  between the files and are embedded once per file, the file's name in front.
\<close>

subsection \<open>Search nodes\<close>

text \<open>
  \<^verbatim>\<open>class Node\<close>: the four fields assigned by \<^verbatim>\<open>__init__\<close>. A missing parent or
  action is Python's \<^verbatim>\<open>None\<close>. \<^verbatim>\<open>path_cost\<close> is a Python float that starts at
  \<^verbatim>\<open>0.0\<close> and grows by \<^verbatim>\<open>action_cost\<close>; it is kept as an exact number, and no
  control decision of the search reads it.
\<close>

datatype ('s, 'a) node =
  Node (state: 's) (parent: "('s, 'a) node option") (action: "'a option") (path_cost: real)

text \<open>\<^verbatim>\<open>Node.__len__\<close>: the depth of a node, the length of its parent chain.\<close>

fun len :: "('s, 'a) node \<Rightarrow> nat" where
  "len (Node s None a c) = 0"
| "len (Node s (Some p) a c) = 1 + len p"

text \<open>
  What a bounded pass returns: a search node, or one of the two module-level sentinels
  \<^verbatim>\<open>failure\<close> and \<^verbatim>\<open>cutoff\<close>. The sentinels are \<^verbatim>\<open>Node\<close> objects that the
  program tells apart by identity (\<^verbatim>\<open>Node\<close> defines no \<^verbatim>\<open>__eq__\<close>, so
  \<^verbatim>\<open>result != cutoff\<close> compares identities), and no node built by \<^verbatim>\<open>expand\<close> is
  one of them; hence the tagged type.
\<close>

datatype ('s, 'a) outcome = Found "('s, 'a) node" | Failure | Cutoff

subsection \<open>Problems\<close>

text \<open>
  \<^verbatim>\<open>class Problem\<close>: the initial state and the methods a search calls. A subclass is a
  value of this record; the field \<^verbatim>\<open>goal\<close> is read by \<^verbatim>\<open>is_goal\<close> only and lives in
  that function. The method \<^verbatim>\<open>h\<close> is called nowhere and is left out.
\<close>

record ('s, 'a) problem =
  initial :: 's
  actions :: "'s \<Rightarrow> 'a list"
  result :: "'s \<Rightarrow> 'a \<Rightarrow> 's"
  is_goal :: "'s \<Rightarrow> bool"
  action_cost :: "'s \<Rightarrow> 'a \<Rightarrow> 's \<Rightarrow> real"

text \<open>
  \<^verbatim>\<open>expand\<close>: a generator yielding one child per action, in the order of
  \<^verbatim>\<open>problem.actions(s)\<close>. Its only consumer drains it at once, so it is the list of
  the children.
\<close>

definition expand :: "('s, 'a) problem \<Rightarrow> ('s, 'a) node \<Rightarrow> ('s, 'a) node list" where
  "expand problem node =
     (let s = state node in
      map (\<lambda>action.
             let s_next = result problem s action in
             Node s_next (Some node) (Some action)
               (path_cost node + action_cost problem s action s_next))
          (actions problem s))"

text \<open>
  The frontier is a \<^verbatim>\<open>LIFOQueue\<close>, a Python list used as a stack. It is a HOL list
  whose head is the top of the stack: \<^verbatim>\<open>frontier.pop()\<close> takes the head and
  \<^verbatim>\<open>frontier.append(child)\<close> puts \<open>child\<close> in front. The loop
  \<^verbatim>\<open>for child in expand(problem, node): frontier.append(child)\<close> is the fold below.
\<close>

definition push_all :: "'n list \<Rightarrow> 'n list \<Rightarrow> 'n list" where
  "push_all children frontier = fold (\<lambda>child fr. child # fr) children frontier"

text \<open>
  \<^verbatim>\<open>sys.maxsize\<close>, the end of the driver's \<^verbatim>\<open>range\<close>, is a constant of the
  platform and not of the repository; the drivers take it as the parameter \<open>maxsize\<close>.
  This is its value on a 64-bit CPython.
\<close>

definition sys_maxsize :: nat where
  "sys_maxsize = 9223372036854775807"

section \<open>element\_search.py\<close>

text \<open>\<^verbatim>\<open>class BinaryTreeNode\<close>; an absent child is \<^verbatim>\<open>None\<close>.\<close>

datatype 'v BinaryTreeNode =
  BinaryTreeNode (bt_value: 'v) (left: "'v BinaryTreeNode option")
    (right: "'v BinaryTreeNode option")

text \<open>
  \<^verbatim>\<open>UserSearchProblem.actions\<close>: the list \<^verbatim>\<open>moves\<close>, to which the left child and
  then the right child are appended when they are there (an object is truthy, \<^verbatim>\<open>None\<close>
  is not).
\<close>

definition UserSearchProblem_actions :: "'v BinaryTreeNode \<Rightarrow> 'v BinaryTreeNode list" where
  "UserSearchProblem_actions st =
     (let moves = [];
          moves = (case left st of Some l \<Rightarrow> moves @ [l] | None \<Rightarrow> moves);
          moves = (case right st of Some r \<Rightarrow> moves @ [r] | None \<Rightarrow> moves)
      in moves)"

text \<open>
  \<^verbatim>\<open>UserSearchProblem(initial, goal)\<close>: \<^verbatim>\<open>result\<close> returns the action, and
  \<^verbatim>\<open>is_goal\<close> and \<^verbatim>\<open>action_cost\<close> are inherited from \<^verbatim>\<open>Problem\<close>.
\<close>

definition UserSearchProblem ::
  "'v BinaryTreeNode \<Rightarrow> 'v \<Rightarrow> ('v BinaryTreeNode, 'v BinaryTreeNode) problem" where
  "UserSearchProblem tree goal =
     \<lparr> initial = tree,
       actions = UserSearchProblem_actions,
       result = (\<lambda>st act. act),
       is_goal = (\<lambda>st. bt_value st = goal),
       action_cost = (\<lambda>s a s1. 1) \<rparr>"

text \<open>
  The \<^verbatim>\<open>while frontier:\<close> loop of \<^verbatim>\<open>element_search.depth_limited_search\<close>, on the
  frontier and the variable \<^verbatim>\<open>result\<close>. The children of the popped node are pushed
  whatever its depth: the statement \<^verbatim>\<open>if len(node) >= limit: result = cutoff\<close> has no
  \<^verbatim>\<open>else\<close>. On a problem with unboundedly long action chains the loop need not end,
  so it is a partial function: \<open>None\<close> stands for a loop that never returns.
\<close>

partial_function (option) element_dls_loop ::
  "('s, 'a) problem \<Rightarrow> nat \<Rightarrow> ('s, 'a) node list \<Rightarrow> ('s, 'a) outcome
     \<Rightarrow> ('s, 'a) outcome option" where
  "element_dls_loop problem limit frontier res =
     (case frontier of
        [] \<Rightarrow> Some res
      | node # rest \<Rightarrow>
          if is_goal problem (state node) then Some (Found node)
          else element_dls_loop problem limit (push_all (expand problem node) rest)
                 (if len node \<ge> limit then Cutoff else res))"

definition element_depth_limited_search ::
  "('s, 'a) problem \<Rightarrow> nat \<Rightarrow> ('s, 'a) outcome option" where
  "element_depth_limited_search problem limit =
     element_dls_loop problem limit [Node (initial problem) None None 0] Failure"

text \<open>
  \<^verbatim>\<open>element_search.iterative_deepening_search\<close>: the loop
  \<^verbatim>\<open>for limit in range(1, sys.maxsize)\<close>, from the current \<open>limit\<close> on. The outer
  \<open>None\<close> is a pass that never returns; \<open>Some None\<close> is Python's \<^verbatim>\<open>None\<close>, returned
  when the range is used up.
\<close>

partial_function (option) element_ids_loop ::
  "nat \<Rightarrow> ('s, 'a) problem \<Rightarrow> nat \<Rightarrow> ('s, 'a) outcome option option" where
  "element_ids_loop maxsize problem limit =
     (if limit \<ge> maxsize then Some None
      else case element_depth_limited_search problem limit of
             None \<Rightarrow> None
           | Some res \<Rightarrow>
               if res \<noteq> Cutoff then Some (Some res)
               else element_ids_loop maxsize problem (limit + 1))"

definition element_iterative_deepening_search ::
  "nat \<Rightarrow> ('s, 'a) problem \<Rightarrow> ('s, 'a) outcome option option" where
  "element_iterative_deepening_search maxsize problem = element_ids_loop maxsize problem 1"

text \<open>The tree built by \<^verbatim>\<open>main\<close> of \<^verbatim>\<open>element_search.py\<close>.\<close>

definition leaf :: "'v \<Rightarrow> 'v BinaryTreeNode" where
  "leaf v = BinaryTreeNode v None None"

definition main_tree :: "int BinaryTreeNode" where
  "main_tree =
     BinaryTreeNode 1
       (Some (BinaryTreeNode 2
          (Some (BinaryTreeNode 6 (Some (leaf 8)) None))
          (Some (leaf 7))))
       (Some (BinaryTreeNode 3
          (Some (BinaryTreeNode 9 None (Some (leaf 4))))
          (Some (leaf 5))))"

text \<open>A tree whose root has two children that both carry the value 7.\<close>

definition two_goals :: "int BinaryTreeNode" where
  "two_goals =
     BinaryTreeNode 1 (Some (BinaryTreeNode 7 (Some (leaf 0)) None)) (Some (leaf 7))"

section \<open>file\_system\_search.py\<close>

text \<open>\<^verbatim>\<open>class TreeNode\<close>: a value and the list of children, in insertion order.\<close>

datatype 'v TreeNode = TreeNode (tn_value: 'v) (children: "'v TreeNode list")

text \<open>
  \<^verbatim>\<open>FileSearchProblem(initial, goal)\<close>: the actions of a state are its children,
  \<^verbatim>\<open>result\<close> returns the action, the rest is inherited from \<^verbatim>\<open>Problem\<close>.
\<close>

definition FileSearchProblem :: "'v TreeNode \<Rightarrow> 'v \<Rightarrow> ('v TreeNode, 'v TreeNode) problem" where
  "FileSearchProblem tree goal =
     \<lparr> initial = tree,
       actions = (\<lambda>st. children st),
       result = (\<lambda>st act. act),
       is_goal = (\<lambda>st. tn_value st = goal),
       action_cost = (\<lambda>s a s1. 1) \<rparr>"

text \<open>\<^verbatim>\<open>path_states\<close>: the values of the states from the root node down to the node.\<close>

fun path_states :: "('v TreeNode, 'a) node \<Rightarrow> 'v list" where
  "path_states (Node s None a c) = [tn_value s]"
| "path_states (Node s (Some p) a c) = path_states p @ [tn_value s]"

text \<open>
  The loop of \<^verbatim>\<open>file_system_search.depth_limited_search\<close> expands a node only below the
  bound, so it ends on every problem. The measure of its termination proof: the number of
  nodes of the search tree under a state, cut \<open>k\<close> levels down, summed over the
  frontier with \<open>k\<close> the room left to the bound.
\<close>

fun bounded_size :: "('s, 'a) problem \<Rightarrow> nat \<Rightarrow> 's \<Rightarrow> nat" where
  "bounded_size p 0 s = 1"
| "bounded_size p (Suc k) s =
     Suc (sum_list (map (\<lambda>a. bounded_size p k (result p s a)) (actions p s)))"

definition frontier_weight :: "('s, 'a) problem \<Rightarrow> nat \<Rightarrow> ('s, 'a) node list \<Rightarrow> nat" where
  "frontier_weight p limit fr =
     sum_list (map (\<lambda>n. bounded_size p (limit - len n) (state n)) fr)"

lemma push_all_rev: "push_all cs fr = rev cs @ fr"
  unfolding push_all_def by (induction cs arbitrary: fr) auto

lemma expand_eq:
  "expand p n =
     map (\<lambda>a. Node (result p (state n) a) (Some n) (Some a)
                (path_cost n + action_cost p (state n) a (result p (state n) a)))
         (actions p (state n))"
  by (simp add: expand_def Let_def)

lemma bounded_size_pos: "0 < bounded_size p k s"
  by (cases k) simp_all

lemma frontier_weight_pop:
  "frontier_weight p limit rest < frontier_weight p limit (node # rest)"
  by (simp add: frontier_weight_def bounded_size_pos)

lemma frontier_weight_expand:
  assumes "len node < limit"
  shows "frontier_weight p limit (push_all (expand p node) rest)
           < frontier_weight p limit (node # rest)"
proof -
  obtain k where k: "limit - len node = Suc k" "limit - Suc (len node) = k"
    using assms by (cases "limit - len node") auto
  have "sum_list (map (\<lambda>n. bounded_size p (limit - len n) (state n)) (rev (expand p node)))
          = sum_list (map (\<lambda>a. bounded_size p k (result p (state node) a))
                       (actions p (state node)))"
    by (simp add: expand_eq rev_map[symmetric] o_def k)
  then show ?thesis
    by (simp add: frontier_weight_def push_all_rev k)
qed

text \<open>
  The \<^verbatim>\<open>while frontier:\<close> loop of \<^verbatim>\<open>file_system_search.depth_limited_search\<close>: here the
  expansion stands in the \<^verbatim>\<open>else\<close> branch of the depth test.
\<close>

function file_system_dls_loop ::
  "('s, 'a) problem \<Rightarrow> nat \<Rightarrow> ('s, 'a) node list \<Rightarrow> ('s, 'a) outcome
     \<Rightarrow> ('s, 'a) outcome" where
  "file_system_dls_loop problem limit [] res = res"
| "file_system_dls_loop problem limit (node # rest) res =
     (if is_goal problem (state node) then Found node
      else if len node \<ge> limit then file_system_dls_loop problem limit rest Cutoff
      else file_system_dls_loop problem limit (push_all (expand problem node) rest) res)"
  by pat_completeness auto
termination
  by (relation "measure (\<lambda>(p, limit, fr, res). frontier_weight p limit fr)")
     (simp_all add: frontier_weight_pop frontier_weight_expand)

definition file_system_depth_limited_search ::
  "('s, 'a) problem \<Rightarrow> nat \<Rightarrow> ('s, 'a) outcome" where
  "file_system_depth_limited_search problem limit =
     file_system_dls_loop problem limit [Node (initial problem) None None 0] Failure"

text \<open>
  \<^verbatim>\<open>file_system_search.iterative_deepening_search\<close>: the loop
  \<^verbatim>\<open>for limit in range(1, sys.maxsize)\<close>, from the current \<open>limit\<close> on; \<open>None\<close> is
  Python's \<^verbatim>\<open>None\<close>, returned when the range is used up.
\<close>

function file_system_ids_loop ::
  "nat \<Rightarrow> ('s, 'a) problem \<Rightarrow> nat \<Rightarrow> ('s, 'a) outcome option" where
  "file_system_ids_loop maxsize problem limit =
     (if limit \<ge> maxsize then None
      else let res = file_system_depth_limited_search problem limit in
           if res \<noteq> Cutoff then Some res
           else file_system_ids_loop maxsize problem (limit + 1))"
  by pat_completeness auto
termination
  by (relation "measure (\<lambda>(maxsize, p, limit). maxsize - limit)") auto

declare file_system_ids_loop.simps [simp del]

definition file_system_iterative_deepening_search ::
  "nat \<Rightarrow> ('s, 'a) problem \<Rightarrow> ('s, 'a) outcome option" where
  "file_system_iterative_deepening_search maxsize problem =
     file_system_ids_loop maxsize problem 1"

text \<open>The tree built by \<^verbatim>\<open>main\<close> of \<^verbatim>\<open>file_system_search.py\<close>.\<close>

definition main_files :: "string TreeNode" where
  "main_files =
     TreeNode ''root''
       [TreeNode ''subdir_1''
          [TreeNode ''file_a'' [],
           TreeNode ''subdir_3'' [TreeNode ''file_b'' [], TreeNode ''file_d'' []]],
        TreeNode ''subdir_2'' [TreeNode ''file_c'' []]]"

text \<open>
  The search node of \<^verbatim>\<open>file_d\<close> in that tree, below the nodes of \<^verbatim>\<open>subdir_3\<close>,
  \<^verbatim>\<open>subdir_1\<close> and the root.
\<close>

definition file_d_node :: "(string TreeNode, string TreeNode) node" where
  "file_d_node =
     (let file_d = TreeNode ''file_d'' [];
          subdir_3 = TreeNode ''subdir_3'' [TreeNode ''file_b'' [], file_d];
          subdir_1 = TreeNode ''subdir_1'' [TreeNode ''file_a'' [], subdir_3]
      in Node file_d
           (Some (Node subdir_3
              (Some (Node subdir_1 (Some (Node main_files None None 0)) (Some subdir_1) 1))
              (Some subdir_3) 2))
           (Some file_d) 3)"

section \<open>rights\_search.py\<close>

text \<open>\<^verbatim>\<open>class FSNode\<close>: a path.\<close>

datatype FSNode = FSNode (path: string)

text \<open>
  \<^verbatim>\<open>WindowsFileSearchProblem\<close> reads the file system through the module \<^verbatim>\<open>os\<close>,
  which is not code of the repository: the functions it calls are the fields of a record,
  a snapshot of the file system. \<open>listdir\<close> is \<open>None\<close> where \<^verbatim>\<open>os.listdir\<close> raises
  \<^verbatim>\<open>PermissionError\<close> or \<^verbatim>\<open>FileNotFoundError\<close>, and \<open>st_mode\<close> is \<open>None\<close> where
  \<^verbatim>\<open>os.stat\<close> raises \<^verbatim>\<open>PermissionError\<close>.
\<close>

record os =
  isdir :: "string \<Rightarrow> bool"
  listdir :: "string \<Rightarrow> string list option"
  join :: "string \<Rightarrow> string \<Rightarrow> string"
  isfile :: "string \<Rightarrow> bool"
  st_mode :: "string \<Rightarrow> nat option"

definition WindowsFileSearchProblem_actions :: "os \<Rightarrow> FSNode \<Rightarrow> FSNode list" where
  "WindowsFileSearchProblem_actions os st =
     (let p = path st in
      if isdir os p then
        (case listdir os p of
           None \<Rightarrow> []
         | Some items \<Rightarrow> map (\<lambda>item. FSNode (join os p item)) items)
      else [])"

definition WindowsFileSearchProblem_is_goal :: "os \<Rightarrow> FSNode \<Rightarrow> bool" where
  "WindowsFileSearchProblem_is_goal os st =
     (let p = path st in
      if isfile os p then
        (case st_mode os p of
           Some mode \<Rightarrow> mode = 33206
         | None \<Rightarrow> False)
      else False)"

definition WindowsFileSearchProblem :: "os \<Rightarrow> FSNode \<Rightarrow> (FSNode, FSNode) problem" where
  "WindowsFileSearchProblem os init =
     \<lparr> initial = init,
       actions = WindowsFileSearchProblem_actions os,
       result = (\<lambda>st act. act),
       is_goal = WindowsFileSearchProblem_is_goal os,
       action_cost = (\<lambda>s a s1. 1) \<rparr>"

text \<open>
  The loop of \<^verbatim>\<open>rights_search.depth_limited_search\<close>, on the frontier, the variable
  \<^verbatim>\<open>result\<close> and the list \<^verbatim>\<open>found_files\<close>, which the program appends to in place and
  the model returns. \<open>hit\<close> is the test \<^verbatim>\<open>depth >= 3 and problem.is_goal(node.state)\<close>.
\<close>

function rights_dls_loop ::
  "(FSNode, 'a) problem \<Rightarrow> nat \<Rightarrow> (FSNode, 'a) node list \<Rightarrow> (FSNode, 'a) outcome
     \<Rightarrow> string list \<Rightarrow> (FSNode, 'a) outcome \<times> string list" where
  "rights_dls_loop problem limit [] res found_files = (res, found_files)"
| "rights_dls_loop problem limit (node # rest) res found_files =
     (let depth = len node;
          hit = (depth \<ge> 3 \<and> is_goal problem (state node));
          found_files = (if hit then found_files @ [path (state node)] else found_files)
      in if hit \<and> length found_files \<ge> 10 then (Found node, found_files)
         else if depth \<ge> limit then rights_dls_loop problem limit rest Cutoff found_files
         else rights_dls_loop problem limit (push_all (expand problem node) rest) res
                found_files)"
  by pat_completeness auto
termination
  by (relation "measure (\<lambda>(p, limit, fr, res, ff). frontier_weight p limit fr)")
     (simp_all add: frontier_weight_pop frontier_weight_expand)

text \<open>
  \<^verbatim>\<open>rights_search.depth_limited_search(problem, limit, found_files=None)\<close>: a missing
  list is replaced by a fresh empty one.
\<close>

definition rights_depth_limited_search ::
  "(FSNode, 'a) problem \<Rightarrow> nat \<Rightarrow> string list option
     \<Rightarrow> (FSNode, 'a) outcome \<times> string list" where
  "rights_depth_limited_search problem limit found_files =
     (let found_files = (case found_files of None \<Rightarrow> [] | Some fs \<Rightarrow> fs)
      in rights_dls_loop problem limit [Node (initial problem) None None 0] Failure
           found_files)"

text \<open>
  \<^verbatim>\<open>rights_search.iterative_deepening_search(problem, start_depth, found_files)\<close>: the
  loop \<^verbatim>\<open>for limit in range(start_depth, sys.maxsize)\<close>. The function returns
  \<^verbatim>\<open>None\<close> on every path; what it leaves behind is the caller's list, which the model
  returns.
\<close>

function rights_ids_loop ::
  "nat \<Rightarrow> (FSNode, 'a) problem \<Rightarrow> nat \<Rightarrow> string list \<Rightarrow> string list" where
  "rights_ids_loop maxsize problem limit found_files =
     (if limit \<ge> maxsize then found_files
      else case rights_depth_limited_search problem limit (Some found_files) of
             (res, found_files) \<Rightarrow>
               if length found_files \<ge> 10 then found_files
               else if res \<noteq> Cutoff then found_files
               else rights_ids_loop maxsize problem (limit + 1) found_files)"
  by pat_completeness auto
termination
  by (relation "measure (\<lambda>(maxsize, p, limit, ff). maxsize - limit)") auto

declare rights_ids_loop.simps [simp del]

definition rights_iterative_deepening_search ::
  "nat \<Rightarrow> (FSNode, 'a) problem \<Rightarrow> nat \<Rightarrow> string list \<Rightarrow> string list" where
  "rights_iterative_deepening_search maxsize problem start_depth found_files =
     rights_ids_loop maxsize problem start_depth found_files"

text \<open>
  A file system with one file of mode 33206, three levels below the start directory:
  \<^verbatim>\<open>C:\<close> holds the directory \<^verbatim>\<open>a\<close>, which holds the directory \<^verbatim>\<open>b\<close>, which holds
  the file \<^verbatim>\<open>f\<close>.
\<close>

definition small_os :: os where
  "small_os =
     \<lparr> isdir = (\<lambda>p. p = ''C:'' \<or> p = ''C:/a'' \<or> p = ''C:/a/b''),
       listdir = (\<lambda>p. if p = ''C:'' then Some [''a'']
                       else if p = ''C:/a'' then Some [''b'']
                       else if p = ''C:/a/b'' then Some [''f'']
                       else None),
       join = (\<lambda>p item. p @ ''/'' @ item),
       isfile = (\<lambda>p. p = ''C:/a/b/f''),
       st_mode = (\<lambda>p. if p = ''C:/a/b/f'' then Some 33206 else Some 16895) \<rparr>"

section \<open>element\_search.py on a store of objects\<close>



















section \<open>Notions the properties are stated with\<close>

text \<open>The height of a binary tree: the depth of its deepest node, the root at depth 0.\<close>

fun height :: "'v BinaryTreeNode \<Rightarrow> nat" where
  "height (BinaryTreeNode v l r) =
     max (case l of None \<Rightarrow> 0 | Some t \<Rightarrow> 1 + height t)
         (case r of None \<Rightarrow> 0 | Some t \<Rightarrow> 1 + height t)"

text \<open>The number of nodes of a binary tree.\<close>

fun count_nodes :: "'v BinaryTreeNode \<Rightarrow> nat" where
  "count_nodes (BinaryTreeNode v l r) =
     1 + (case l of None \<Rightarrow> 0 | Some t \<Rightarrow> count_nodes t)
       + (case r of None \<Rightarrow> 0 | Some t \<Rightarrow> count_nodes t)"

text \<open>
  The number of tree nodes under the states of a frontier: what the loop of
  \<^verbatim>\<open>element_search.py\<close> uses up on a binary tree.
\<close>

definition frontier_size :: "('v BinaryTreeNode, 'a) node list \<Rightarrow> nat" where
  "frontier_size fr = sum_list (map (\<lambda>n. size (state n)) fr)"

text \<open>The child that \<^verbatim>\<open>expand\<close> builds for one action of a node.\<close>

definition child :: "('s, 'a) problem \<Rightarrow> ('s, 'a) node \<Rightarrow> 'a \<Rightarrow> ('s, 'a) node" where
  "child p n a =
     Node (result p (state n) a) (Some n) (Some a)
       (path_cost n + action_cost p (state n) a (result p (state n) a))"

text \<open>
  A node lies under a node \<open>r\<close> when \<open>r\<close> is the node itself or one of the nodes of
  its parent chain.
\<close>

fun under :: "('s, 'a) node \<Rightarrow> ('s, 'a) node \<Rightarrow> bool" where
  "under (Node s None a c) r = (Node s None a c = r)"
| "under (Node s (Some q) a c) r = (Node s (Some q) a c = r \<or> under q r)"

text \<open>The states met when the parent references are followed from a node to the root.\<close>

fun walk_parents :: "('s, 'a) node \<Rightarrow> 's list" where
  "walk_parents (Node s None a c) = [s]"
| "walk_parents (Node s (Some p) a c) = s # walk_parents p"

text \<open>The actions recorded along the parent chain of a node, the root's side first.\<close>

fun path_actions :: "('s, 'a) node \<Rightarrow> 'a list" where
  "path_actions (Node s None a c) = []"
| "path_actions (Node s (Some p) a c) =
     path_actions p @ (case a of None \<Rightarrow> [] | Some x \<Rightarrow> [x])"

text \<open>
  The states passed when the actions of a list are applied in turn with
  \<^verbatim>\<open>problem.result\<close>, the start state first.
\<close>

fun trajectory :: "('s, 'a) problem \<Rightarrow> 's \<Rightarrow> 'a list \<Rightarrow> 's list" where
  "trajectory p s [] = [s]"
| "trajectory p s (a # as) = s # trajectory p (result p s a) as"

text \<open>
  A node is built by the search of a problem when its chain of parents starts at a root
  node of the initial state and every other node of the chain holds the result of its
  recorded action on its parent's state.
\<close>

fun built_by :: "('s, 'a) problem \<Rightarrow> ('s, 'a) node \<Rightarrow> bool" where
  "built_by p (Node s None a c) = (s = initial p \<and> a = None)"
| "built_by p (Node s (Some q) a c) =
     (built_by p q \<and> (case a of None \<Rightarrow> False | Some x \<Rightarrow> s = result p (state q) x))"

text \<open>
  Every chain of actions from the state \<open>s\<close> has at most \<open>d\<close> actions.
\<close>

fun chains_within :: "('s, 'a) problem \<Rightarrow> nat \<Rightarrow> 's \<Rightarrow> bool" where
  "chains_within p 0 s = (actions p s = [])"
| "chains_within p (Suc d) s = list_all (\<lambda>a. chains_within p d (result p s a)) (actions p s)"

text \<open>
  A finite state space from \<open>s\<close> on: a state has finitely many actions (they form a
  list), and every chain of actions from \<open>s\<close> ends, which is the inductive reading
  below.
\<close>

inductive finite_space :: "('s, 'a) problem \<Rightarrow> 's \<Rightarrow> bool" for p where
  "(\<And>a. a \<in> set (actions p s) \<Longrightarrow> finite_space p (result p s a)) \<Longrightarrow> finite_space p s"

section \<open>The loops on every problem\<close>

lemma element_dls_loop_Nil: "element_dls_loop p l [] res = Some res"
  by (subst element_dls_loop.simps) simp

lemma element_dls_loop_Cons:
  "element_dls_loop p l (n # rest) res =
     (if is_goal p (state n) then Some (Found n)
      else element_dls_loop p l (push_all (expand p n) rest)
             (if len n \<ge> l then Cutoff else res))"
  by (subst element_dls_loop.simps) simp

lemma file_system_dls_limit_0:
  "\<not> is_goal p (initial p) \<Longrightarrow> file_system_depth_limited_search p 0 = Cutoff"
  by (simp add: file_system_depth_limited_search_def)

lemma file_system_dls_goal_root:
  "is_goal p (initial p) \<Longrightarrow>
   file_system_depth_limited_search p limit = Found (Node (initial p) None None 0)"
  by (simp add: file_system_depth_limited_search_def)

lemma element_dls_goal_root:
  "is_goal p (initial p) \<Longrightarrow>
   element_depth_limited_search p limit = Some (Found (Node (initial p) None None 0))"
  by (simp add: element_depth_limited_search_def element_dls_loop_Cons)

text \<open>The equations that evaluate the searches on the trees of the two \<^verbatim>\<open>main\<close>s.\<close>

lemmas eval_element =
  element_iterative_deepening_search_def element_ids_loop.simps sys_maxsize_def
  element_depth_limited_search_def element_dls_loop_Nil element_dls_loop_Cons
  UserSearchProblem_def UserSearchProblem_actions_def main_tree_def leaf_def expand_eq
  push_all_def Let_def

lemmas eval_file_system =
  file_system_iterative_deepening_search_def file_system_ids_loop.simps
  sys_maxsize_def file_system_depth_limited_search_def FileSearchProblem_def main_files_def
  expand_eq push_all_def Let_def

lemma main_files_search:
  "file_system_iterative_deepening_search sys_maxsize (FileSearchProblem main_files ''file_d'')
     = Some (Found file_d_node)"
  by (simp add: file_system_iterative_deepening_search_def file_system_ids_loop.simps
      sys_maxsize_def file_system_depth_limited_search_def FileSearchProblem_def main_files_def
      file_d_node_def expand_eq push_all_def Let_def)

lemma expand_child: "expand p n = map (child p n) (actions p (state n))"
  by (simp add: expand_eq child_def)

lemma element_dls_loop_dead_ends:
  "\<forall>c \<in> set cs. \<not> is_goal p (state c) \<and> actions p (state c) = [] \<Longrightarrow>
   \<exists>res'. element_dls_loop p limit (cs @ fr) res = element_dls_loop p limit fr res'"
proof (induction cs arbitrary: res)
  case Nil
  then show ?case by auto
next
  case (Cons c cs)
  have "element_dls_loop p limit ((c # cs) @ fr) res
        = element_dls_loop p limit (cs @ fr) (if limit \<le> len c then Cutoff else res)"
    using Cons.prems by (simp add: element_dls_loop_Cons expand_eq push_all_rev)
  then show ?case using Cons.IH[of "if limit \<le> len c then Cutoff else res"] Cons.prems by auto
qed

lemma under_refl: "under m m"
proof (cases m)
  case (Node s par a c)
  then show ?thesis by (cases par) auto
qed

lemma under_len: "under m r \<Longrightarrow> len r \<le> len m"
  by (induction m r rule: under.induct) auto

lemma under_parent: "parent m = Some q \<Longrightarrow> under q r \<Longrightarrow> under m r"
  by (cases m) auto

lemma under_expand: "c \<in> set (expand p n) \<Longrightarrow> under c n"
  by (auto simp: expand_eq under_refl)

lemma under_trans: "under m c \<Longrightarrow> under c r \<Longrightarrow> under m r"
  by (induction m c rule: under.induct) auto

lemma element_dls_loop_prefix_aux:
  assumes "element_dls_loop p limit frontier res = Some out"
  shows "element_dls_loop p limit frontier res = Some out
         \<and> (\<forall>cs fr. frontier = cs @ fr \<longrightarrow>
               (\<exists>m c. out = Found m \<and> c \<in> set cs \<and> under m c)
               \<or> (\<exists>res'. element_dls_loop p limit fr res' = Some out))"
  using assms
proof (induction p limit frontier res out rule: element_dls_loop.raw_induct[rotated 1, consumes 1])
  case (1 loop problem limit frontier res out)
  note IH = 1(1) and run = 1(2)
  show ?case
  proof (cases frontier)
    case Nil
    then have "out = res" using run by simp
    then show ?thesis using Nil by (auto simp: element_dls_loop_Nil)
  next
    case (Cons node rest)
    show ?thesis
    proof (cases "is_goal problem (state node)")
      case True
      then have out: "out = Found node" using run Cons by simp
      have real: "element_dls_loop problem limit frontier res = Some out"
        using True Cons out by (simp add: element_dls_loop_Cons)
      have "(\<exists>m c. out = Found m \<and> c \<in> set cs \<and> under m c)
            \<or> (\<exists>res'. element_dls_loop problem limit fr res' = Some out)"
        if "frontier = cs @ fr" for cs fr
      proof (cases cs)
        case Nil
        then show ?thesis using that real by auto
      next
        case (Cons c cs')
        then have "c = node" using that \<open>frontier = node # rest\<close> by simp
        then show ?thesis using out Cons under_refl by auto
      qed
      then show ?thesis using real by blast
    next
      case False
      let ?res = "if limit \<le> len node then Cutoff else res"
      let ?fr = "push_all (expand problem node) rest"
      have "loop problem limit ?fr ?res = Some out"
        using run Cons False by simp
      from IH[OF this] have
        real': "element_dls_loop problem limit ?fr ?res = Some out" and
        pre: "\<And>cs fr. ?fr = cs @ fr \<Longrightarrow>
               (\<exists>m c. out = Found m \<and> c \<in> set cs \<and> under m c)
               \<or> (\<exists>res'. element_dls_loop problem limit fr res' = Some out)"
        by blast+
      have real: "element_dls_loop problem limit frontier res = Some out"
        using False Cons real' by (simp add: element_dls_loop_Cons)
      have "(\<exists>m c. out = Found m \<and> c \<in> set cs \<and> under m c)
            \<or> (\<exists>res'. element_dls_loop problem limit fr res' = Some out)"
        if split: "frontier = cs @ fr" for cs fr
      proof (cases cs)
        case Nil
        then show ?thesis using split real by auto
      next
        case (Cons c cs')
        then have c: "c = node" "rest = cs' @ fr"
          using split \<open>frontier = node # rest\<close> by simp_all
        have "?fr = (rev (expand problem node) @ cs') @ fr"
          using c by (simp add: push_all_rev)
        from pre[OF this] show ?thesis
        proof
          assume "\<exists>m d. out = Found m \<and> d \<in> set (rev (expand problem node) @ cs') \<and> under m d"
          then obtain m d where m: "out = Found m" "under m d"
            and d: "d \<in> set (expand problem node) \<or> d \<in> set cs'"
            by auto
          from d show ?thesis
          proof
            assume "d \<in> set (expand problem node)"
            then have "under m node" using m(2) under_expand under_trans by blast
            then show ?thesis using m(1) c Cons by auto
          next
            assume "d \<in> set cs'"
            then show ?thesis using m Cons by auto
          qed
        next
          assume "\<exists>res'. element_dls_loop problem limit fr res' = Some out"
          then show ?thesis ..
        qed
      qed
      then show ?thesis using real by blast
    qed
  qed
qed

lemma element_dls_loop_prefix:
  assumes "element_dls_loop p limit (cs @ fr) res = Some out"
  shows "(\<exists>m c. out = Found m \<and> c \<in> set cs \<and> under m c)
         \<or> (\<exists>res'. element_dls_loop p limit fr res' = Some out)"
  using element_dls_loop_prefix_aux[OF assms] by blast

lemma under_child_of:
  assumes "under (child p n x) (child p n y)"
  shows "x = y"
proof -
  have "child p n x = child p n y \<or> under n (child p n y)"
    using assms by (simp add: child_def)
  then show ?thesis
  proof
    assume "child p n x = child p n y"
    then show ?thesis by (simp add: child_def)
  next
    assume "under n (child p n y)"
    then have "len (child p n y) \<le> len n" by (rule under_len)
    then show ?thesis by (simp add: child_def)
  qed
qed

lemma file_system_dls_loop_dead_ends:
  "\<forall>c \<in> set cs. \<not> is_goal p (state c) \<and> actions p (state c) = [] \<Longrightarrow>
   \<exists>res'. file_system_dls_loop p limit (cs @ fr) res = file_system_dls_loop p limit fr res'"
proof (induction cs arbitrary: res)
  case Nil
  then show ?case by auto
next
  case (Cons c cs)
  have "\<exists>r. file_system_dls_loop p limit ((c # cs) @ fr) res
        = file_system_dls_loop p limit (cs @ fr) r"
    using Cons.prems by (auto simp: expand_eq push_all_rev)
  then show ?case using Cons.IH Cons.prems by (metis list.set_intros(2))
qed

lemma file_system_later_sibling_is_returned:
  assumes "\<not> is_goal p (state n)" and "len n < limit"
    and "actions p (state n) = xs @ a # ys"
    and "is_goal p (result p (state n) a)"
    and "\<forall>b \<in> set ys. \<not> is_goal p (result p (state n) b)
                        \<and> actions p (result p (state n) b) = []"
  shows "file_system_dls_loop p limit (n # rest) res = Found (child p n a)"
proof -
  let ?fr = "child p n a # rev (map (child p n) xs) @ rest"
  have "file_system_dls_loop p limit (n # rest) res
        = file_system_dls_loop p limit (rev (map (child p n) ys) @ ?fr) res"
    using assms(1,2,3) by (simp add: expand_child push_all_rev)
  moreover have "\<forall>c \<in> set (rev (map (child p n) ys)).
        \<not> is_goal p (state c) \<and> actions p (state c) = []"
    using assms(5) by (auto simp: child_def)
  then obtain res' where "file_system_dls_loop p limit (rev (map (child p n) ys) @ ?fr) res
        = file_system_dls_loop p limit ?fr res'"
    using file_system_dls_loop_dead_ends by blast
  moreover have "file_system_dls_loop p limit ?fr res' = Found (child p n a)"
    using assms(4) by (simp add: child_def)
  ultimately show ?thesis by simp
qed

lemma element_dls_loop_found:
  assumes "element_dls_loop p limit fr res = Some out"
  shows "out = res \<or> (\<exists>n. out = Found n \<and> is_goal p (state n)) \<or> out = Cutoff"
  using assms
proof (induction p limit fr res out rule: element_dls_loop.raw_induct[rotated 1, consumes 1])
  case (1 loop problem limit frontier res out)
  show ?case
  proof (cases frontier)
    case Nil
    then show ?thesis using 1(2) by simp
  next
    case (Cons node rest)
    show ?thesis
    proof (cases "is_goal problem (state node)")
      case True
      then show ?thesis using 1(2) Cons by auto
    next
      case False
      then have "loop problem limit (push_all (expand problem node) rest)
                   (if limit \<le> len node then Cutoff else res) = Some out"
        using 1(2) Cons by simp
      from 1(1)[OF this] show ?thesis by (cases "limit \<le> len node") auto
    qed
  qed
qed

lemma element_ids_loop_result:
  "element_ids_loop maxsize p k = Some (Some r) \<Longrightarrow>
   \<exists>l. k \<le> l \<and> l < maxsize \<and> element_depth_limited_search p l = Some r \<and> r \<noteq> Cutoff"
proof (induction "maxsize - k" arbitrary: k)
  case 0
  then show ?case by (subst (asm) element_ids_loop.simps) simp
next
  case (Suc d)
  from Suc.prems Suc.hyps(2) obtain res where
    res: "element_depth_limited_search p k = Some res"
    and rest: "(if res \<noteq> Cutoff then Some (Some res) else element_ids_loop maxsize p (k + 1)) = Some (Some r)"
    by (subst (asm) element_ids_loop.simps) (auto split: option.splits if_splits)
  show ?case
  proof (cases "res = Cutoff")
    case True
    then have "element_ids_loop maxsize p (k + 1) = Some (Some r)" using rest by simp
    moreover have "d = maxsize - (k + 1)" using Suc.hyps(2) by simp
    ultimately obtain l where "k + 1 \<le> l" "l < maxsize"
      "element_depth_limited_search p l = Some r" "r \<noteq> Cutoff"
      using Suc.hyps(1) by blast
    then show ?thesis by (intro exI[of _ l]) auto
  next
    case False
    then show ?thesis using res rest Suc.hyps(2) by (intro exI[of _ k]) auto
  qed
qed

lemma file_system_dls_loop_found:
  "file_system_dls_loop p limit fr res = res
   \<or> (\<exists>n. file_system_dls_loop p limit fr res = Found n \<and> is_goal p (state n))
   \<or> file_system_dls_loop p limit fr res = Cutoff"
proof (induction p limit fr res rule: file_system_dls_loop.induct)
  case (1 problem limit res)
  then show ?case by simp
next
  case (2 problem limit node rest res)
  show ?case
  proof (cases "is_goal problem (state node)")
    case True
    then show ?thesis by simp
  next
    case False
    then show ?thesis using 2 by (cases "limit \<le> len node") auto
  qed
qed

lemma file_system_ids_loop_result:
  "file_system_ids_loop maxsize p k = Some r \<Longrightarrow>
   \<exists>l. k \<le> l \<and> l < maxsize \<and> r = file_system_depth_limited_search p l \<and> r \<noteq> Cutoff"
proof (induction maxsize p k rule: file_system_ids_loop.induct)
  case (1 maxsize problem limit)
  show ?case
  proof (cases "maxsize \<le> limit")
    case True
    then show ?thesis using "1.prems" by (simp add: file_system_ids_loop.simps)
  next
    case False
    show ?thesis
    proof (cases "file_system_depth_limited_search problem limit = Cutoff")
      case True
      then have "file_system_ids_loop maxsize problem (limit + 1) = Some r"
        using "1.prems" False by (simp add: file_system_ids_loop.simps[of maxsize problem limit])
      from "1.IH"[OF False refl _ this] True obtain l where
        "limit + 1 \<le> l" "l < maxsize" "r = file_system_depth_limited_search problem l" "r \<noteq> Cutoff"
        by auto
      then show ?thesis by (intro exI[of _ l]) auto
    next
      case F: False
      then show ?thesis using "1.prems" False
        by (intro exI[of _ limit]) (auto simp: file_system_ids_loop.simps[of maxsize problem limit])
    qed
  qed
qed

section \<open>The loop of element\_search.py on binary trees\<close>

lemma set_UserSearchProblem_actions:
  "set (UserSearchProblem_actions s) = set_option (left s) \<union> set_option (right s)"
  by (auto simp: UserSearchProblem_actions_def Let_def split: option.splits)

lemma expand_UserSearchProblem:
  "expand (UserSearchProblem t g) n =
     map (\<lambda>a. Node a (Some n) (Some a) (path_cost n + 1)) (UserSearchProblem_actions (state n))"
  by (simp add: expand_eq UserSearchProblem_def)

lemma actions_size_sum:
  "sum_list (map size (UserSearchProblem_actions s)) < size s"
  by (cases s) (auto simp: UserSearchProblem_actions_def Let_def split: option.splits)

lemma values_unfold:
  "set_BinaryTreeNode s = insert (bt_value s) (\<Union>c \<in> set (UserSearchProblem_actions s). set_BinaryTreeNode c)"
  by (cases s) (auto simp: set_UserSearchProblem_actions)

lemma height_unfold:
  "(l \<le> k + height s) = (l \<le> k \<or> (\<exists>c \<in> set (UserSearchProblem_actions s). l \<le> Suc k + height c))"
  by (cases s) (auto simp: set_UserSearchProblem_actions split: option.splits)

lemma frontier_size_step:
  "frontier_size (push_all (expand (UserSearchProblem t g) n) rest) < frontier_size (n # rest)"
proof -
  have "sum_list (map (\<lambda>n. size (state n)) (rev (expand (UserSearchProblem t g) n)))
        = sum_list (map size (UserSearchProblem_actions (state n)))"
    by (simp add: expand_UserSearchProblem rev_map[symmetric] o_def)
  then show ?thesis
    using actions_size_sum[of "state n"]
    by (simp add: frontier_size_def push_all_rev)
qed

lemma element_dls_loop_no_goal:
  "\<forall>n \<in> set fr. g \<notin> set_BinaryTreeNode (state n) \<Longrightarrow>
   element_dls_loop (UserSearchProblem t g) l fr res =
     Some (if \<exists>n \<in> set fr. l \<le> len n + height (state n) then Cutoff else res)"
proof (induction "frontier_size fr" arbitrary: fr res rule: less_induct)
  case less
  show ?case
  proof (cases fr)
    case Nil
    then show ?thesis by (simp add: element_dls_loop_Nil)
  next
    case (Cons n rest)
    let ?p = "UserSearchProblem t g"
    let ?cs = "expand ?p n"
    let ?res = "if l \<le> len n then Cutoff else res"
    have ng: "\<not> is_goal ?p (state n)"
      using less.prems Cons values_unfold[of "state n"] by (auto simp: UserSearchProblem_def)
    have nogoal': "\<forall>m \<in> set (push_all ?cs rest). g \<notin> set_BinaryTreeNode (state m)"
      using less.prems Cons values_unfold[of "state n"]
      by (auto simp: push_all_rev expand_UserSearchProblem)
    have small: "frontier_size (push_all ?cs rest) < frontier_size fr"
      using frontier_size_step[of t g n rest] Cons by simp
    have step: "element_dls_loop ?p l fr res = element_dls_loop ?p l (push_all ?cs rest) ?res"
      using ng Cons by (simp add: element_dls_loop_Cons)
    have cut: "(\<exists>m \<in> set (push_all ?cs rest). l \<le> len m + height (state m))
       = ((\<exists>c \<in> set (UserSearchProblem_actions (state n)). l \<le> Suc (len n) + height c)
          \<or> (\<exists>m \<in> set rest. l \<le> len m + height (state m)))"
      by (simp add: push_all_rev expand_UserSearchProblem bex_Un)
    show ?thesis
      unfolding step less.hyps[OF small nogoal'] cut
      using height_unfold[of l "len n" "state n"] Cons by auto
  qed
qed

lemma element_dls_loop_goal:
  "\<exists>n \<in> set fr. g \<in> set_BinaryTreeNode (state n) \<Longrightarrow>
   \<exists>m. element_dls_loop (UserSearchProblem t g) l fr res = Some (Found m) \<and> bt_value (state m) = g"
proof (induction "frontier_size fr" arbitrary: fr res rule: less_induct)
  case less
  show ?case
  proof (cases fr)
    case Nil
    then show ?thesis using less.prems by simp
  next
    case (Cons n rest)
    let ?p = "UserSearchProblem t g"
    let ?cs = "expand ?p n"
    let ?res = "if l \<le> len n then Cutoff else res"
    show ?thesis
    proof (cases "is_goal ?p (state n)")
      case True
      then show ?thesis using Cons by (simp add: element_dls_loop_Cons UserSearchProblem_def)
    next
      case False
      have "bt_value (state n) \<noteq> g"
        using False by (simp add: UserSearchProblem_def)
      then have goal': "\<exists>m \<in> set (push_all ?cs rest). g \<in> set_BinaryTreeNode (state m)"
        using less.prems Cons values_unfold[of "state n"]
        by (simp add: push_all_rev expand_UserSearchProblem bex_Un)
      have small: "frontier_size (push_all ?cs rest) < frontier_size fr"
        using frontier_size_step[of t g n rest] Cons by simp
      have step: "element_dls_loop ?p l fr res = element_dls_loop ?p l (push_all ?cs rest) ?res"
        using False Cons by (simp add: element_dls_loop_Cons)
      show ?thesis
        unfolding step using less.hyps[OF small goal'] by simp
    qed
  qed
qed

lemma element_dls_tree:
  "element_depth_limited_search (UserSearchProblem t g) l =
     (if g \<in> set_BinaryTreeNode t
      then element_depth_limited_search (UserSearchProblem t g) l
      else Some (if l \<le> height t then Cutoff else Failure))"
  using element_dls_loop_no_goal[of "[Node t None None 0]" g t l Failure]
  by (simp add: element_depth_limited_search_def UserSearchProblem_def)

lemma element_ids_loop_cutoffs:
  assumes "\<And>l. k \<le> l \<Longrightarrow> l < m \<Longrightarrow> element_depth_limited_search p l = Some Cutoff"
    and "element_depth_limited_search p m = Some r" and "r \<noteq> Cutoff"
    and "k \<le> m" and "m < maxsize"
  shows "element_ids_loop maxsize p k = Some (Some r)"
  using assms
proof (induction "m - k" arbitrary: k)
  case 0
  then show ?case by (subst element_ids_loop.simps) simp
next
  case (Suc d)
  then have "element_depth_limited_search p k = Some Cutoff" "k < maxsize" by auto
  moreover have "element_ids_loop maxsize p (k + 1) = Some (Some r)"
    using Suc by (intro Suc.hyps) auto
  ultimately show ?case by (subst element_ids_loop.simps) simp
qed

lemma height_less_count_nodes: "height t < count_nodes t"
proof (induction t)
  case (BinaryTreeNode v l r)
  have "height x < count_nodes x" if "x \<in> set_option l" for x
    using BinaryTreeNode(1) that by simp
  moreover have "height x < count_nodes x" if "x \<in> set_option r" for x
    using BinaryTreeNode(2) that by simp
  ultimately show ?case
    by (cases l; cases r) (auto simp: less_Suc_eq_le)
qed

lemma element_ids_loop_used_up:
  assumes "\<And>l. k \<le> l \<Longrightarrow> l < maxsize \<Longrightarrow> element_depth_limited_search p l = Some Cutoff"
  shows "element_ids_loop maxsize p k = Some None"
  using assms
proof (induction "maxsize - k" arbitrary: k)
  case 0
  then show ?case by (subst element_ids_loop.simps) simp
next
  case (Suc d)
  then have "element_depth_limited_search p k = Some Cutoff" "k < maxsize" by auto
  moreover have "element_ids_loop maxsize p (k + 1) = Some None"
    using Suc by (intro Suc.hyps) auto
  ultimately show ?case by (subst element_ids_loop.simps) simp
qed

lemma element_ids_range_used_up:
  assumes "g \<notin> set_BinaryTreeNode t" and "maxsize \<le> height t + 1"
  shows "element_iterative_deepening_search maxsize (UserSearchProblem t g) = Some None"
  unfolding element_iterative_deepening_search_def
  using assms element_dls_tree[of t g]
  by (intro element_ids_loop_used_up) auto

section \<open>Nodes built by a search and their paths\<close>

lemma trajectory_nonempty: "trajectory p s as \<noteq> []"
  by (cases as) auto

lemma trajectory_snoc:
  "trajectory p s (as @ [a]) = trajectory p s as @ [result p (foldl (result p) s as) a]"
  by (induction as arbitrary: s) auto

lemma built_by_path:
  "built_by p n \<Longrightarrow> foldl (result p) (initial p) (path_actions n) = state n"
  by (induction p n rule: built_by.induct) (auto split: option.splits)

lemma built_by_path_states:
  fixes p :: "('v TreeNode, 'a) problem"
  shows "built_by p n \<Longrightarrow>
     path_states n = map tn_value (trajectory p (initial p) (path_actions n))"
proof (induction p n rule: built_by.induct)
  case (1 p s a c)
  then show ?case by simp
next
  case (2 p s q a c)
  then show ?case
    using built_by_path[of p q]
    by (auto split: option.splits simp: trajectory_snoc)
qed

lemma path_states_walk: "path_states n = map tn_value (rev (walk_parents n))"
  by (induction n rule: path_states.induct) auto

lemma built_by_walk:
  "built_by p n \<Longrightarrow> rev (walk_parents n) = trajectory p (initial p) (path_actions n)"
proof (induction p n rule: built_by.induct)
  case (1 p s a c)
  then show ?case by simp
next
  case (2 p s q a c)
  then show ?case
    using built_by_path[of p q]
    by (auto split: option.splits simp: trajectory_snoc)
qed

lemma built_by_expand: "built_by p n \<Longrightarrow> c \<in> set (expand p n) \<Longrightarrow> built_by p c"
  by (auto simp: expand_eq)

lemma file_system_dls_loop_built_by:
  "\<forall>n \<in> set fr. built_by p n \<Longrightarrow> file_system_dls_loop p limit fr res = Found m \<Longrightarrow>
   res = Found m \<or> built_by p m"
proof (induction p limit fr res rule: file_system_dls_loop.induct)
  case (1 problem limit res)
  then show ?case by simp
next
  case (2 problem limit node rest res)
  show ?case
  proof (cases "is_goal problem (state node)")
    case True
    then show ?thesis using 2 by simp
  next
    case ng: False
    show ?thesis
    proof (cases "limit \<le> len node")
      case True
      then show ?thesis using 2 ng by simp
    next
      case False
      have "\<forall>n \<in> set (push_all (expand problem node) rest). built_by problem n"
        using "2.prems"(1) built_by_expand[of problem node] by (auto simp: push_all_rev)
      then show ?thesis using 2 ng False by simp
    qed
  qed
qed

lemma file_system_dls_loop_depth:
  "\<forall>n \<in> set fr. len n \<le> limit \<Longrightarrow> file_system_dls_loop p limit fr res = Found m \<Longrightarrow>
   res = Found m \<or> len m \<le> limit"
proof (induction p limit fr res rule: file_system_dls_loop.induct)
  case (1 problem limit res)
  then show ?case by simp
next
  case (2 problem limit node rest res)
  show ?case
  proof (cases "is_goal problem (state node)")
    case True
    then show ?thesis using 2 by simp
  next
    case ng: False
    show ?thesis
    proof (cases "limit \<le> len node")
      case True
      then show ?thesis using 2 ng by simp
    next
      case False
      have "\<forall>n \<in> set (push_all (expand problem node) rest). len n \<le> limit"
        using "2.prems"(1) False by (auto simp: push_all_rev expand_eq)
      then show ?thesis using 2 ng False by simp
    qed
  qed
qed

lemma path_actions_length: "built_by p n \<Longrightarrow> length (path_actions n) = len n"
  by (induction p n rule: built_by.induct) (auto split: option.splits)

lemma file_system_dls_found:
  assumes "file_system_depth_limited_search p limit = Found m"
  shows "is_goal p (state m) \<and> built_by p m \<and> len m \<le> limit"
proof -
  let ?root = "Node (initial p) None None 0"
  have "file_system_dls_loop p limit [?root] Failure = Found m"
    using assms by (simp add: file_system_depth_limited_search_def)
  then show ?thesis
    using file_system_dls_loop_found[of p limit "[?root]" Failure]
      file_system_dls_loop_built_by[of "[?root]" p limit Failure m]
      file_system_dls_loop_depth[of "[?root]" limit p Failure m]
    by auto
qed

section \<open>Bounded state spaces\<close>

lemma chains_within_Suc: "chains_within p d s \<Longrightarrow> chains_within p (Suc d) s"
proof (induction d arbitrary: s)
  case 0
  then show ?case by simp
next
  case (Suc d)
  have "chains_within p (Suc d) (result p s a)" if "a \<in> set (actions p s)" for a
    using Suc.prems that by (intro Suc.IH) (simp add: list_all_iff)
  then show ?case by (simp add: list_all_iff)
qed

lemma chains_within_mono: "chains_within p d s \<Longrightarrow> d \<le> e \<Longrightarrow> chains_within p e s"
  by (induction e) (auto simp: le_Suc_eq chains_within_Suc simp del: chains_within.simps)

lemma finite_space_bounded: "finite_space p s \<Longrightarrow> \<exists>d. chains_within p d s"
proof (induction rule: finite_space.induct)
  case (1 s)
  have "\<forall>a \<in> set (actions p s). \<exists>d. chains_within p d (result p s a)"
    using 1 by simp
  then have "\<exists>f. \<forall>a \<in> set (actions p s). chains_within p (f a) (result p s a)"
    by (rule bchoice)
  then obtain f where f: "\<And>a. a \<in> set (actions p s) \<Longrightarrow> chains_within p (f a) (result p s a)"
    by auto
  define D where "D = Max (insert 0 (f ` set (actions p s)))"
  have "chains_within p D (result p s a)" if "a \<in> set (actions p s)" for a
  proof -
    have "f a \<le> D" unfolding D_def using that by (intro Max_ge) auto
    with f[OF that] show ?thesis by (rule chains_within_mono)
  qed
  then have "chains_within p (Suc D) s" by (simp add: list_all_iff)
  then show ?case ..
qed

lemma chains_within_finite_space: "chains_within p d s \<Longrightarrow> finite_space p s"
proof (induction d arbitrary: s)
  case 0
  show ?case
  proof (rule finite_space.intros)
    fix a assume "a \<in> set (actions p s)"
    then show "finite_space p (result p s a)" using 0 by simp
  qed
next
  case (Suc d)
  show ?case
  proof (rule finite_space.intros)
    fix a assume "a \<in> set (actions p s)"
    then have "chains_within p d (result p s a)"
      using Suc.prems by (simp add: list_all_iff)
    then show "finite_space p (result p s a)" by (rule Suc.IH)
  qed
qed



section \<open>The list of rights\_search.py\<close>

lemma rights_dls_loop_length:
  "length ff < 10 \<Longrightarrow> length (snd (rights_dls_loop p limit fr res ff)) \<le> 10"
proof (induction p limit fr res ff rule: rights_dls_loop.induct)
  case (1 problem limit res found_files)
  then show ?case by simp
next
  case (2 problem limit node rest res found_files)
  define hit where "hit = (3 \<le> len node \<and> is_goal problem (state node))"
  define ff where "ff = (if hit then found_files @ [path (state node)] else found_files)"
  have unfold: "rights_dls_loop problem limit (node # rest) res found_files =
     (if hit \<and> 10 \<le> length ff then (Found node, ff)
      else if limit \<le> len node then rights_dls_loop problem limit rest Cutoff ff
      else rights_dls_loop problem limit (push_all (expand problem node) rest) res ff)"
    by (auto simp: hit_def ff_def Let_def)
  have le: "length ff \<le> 10" using "2.prems" by (simp add: ff_def)
  show ?case
  proof (cases "hit \<and> 10 \<le> length ff")
    case True
    then show ?thesis using le unfolding unfold by simp
  next
    case False
    then have small: "length ff < 10" using "2.prems" by (auto simp: ff_def)
    show ?thesis
    proof (cases "limit \<le> len node")
      case True
      have "length (snd (rights_dls_loop problem limit rest Cutoff ff)) \<le> 10"
        using False True small by (intro "2.IH"(1)[of "len node" hit ff]) (auto simp: hit_def ff_def)
      then show ?thesis using False True unfolding unfold by auto
    next
      case F: False
      have "length (snd (rights_dls_loop problem limit (push_all (expand problem node) rest) res ff))
              \<le> 10"
        using False F small by (intro "2.IH"(2)[of "len node" hit ff]) (auto simp: hit_def ff_def)
      then show ?thesis using False F unfolding unfold by auto
    qed
  qed
qed

lemma rights_ids_loop_length:
  "length ff < 10 \<Longrightarrow> length (rights_ids_loop maxsize p limit ff) \<le> 10"
proof (induction maxsize p limit ff rule: rights_ids_loop.induct)
  case (1 maxsize problem limit found_files)
  obtain res ff' where run: "rights_depth_limited_search problem limit (Some found_files) = (res, ff')"
    by (cases "rights_depth_limited_search problem limit (Some found_files)")
  then have le: "length ff' \<le> 10"
    using rights_dls_loop_length[OF "1.prems", of problem limit
        "[Node (initial problem) None None 0]" Failure]
    by (simp add: rights_depth_limited_search_def)
  show ?case
  proof (cases "maxsize \<le> limit \<or> 10 \<le> length ff' \<or> res \<noteq> Cutoff")
    case True
    then show ?thesis using "1.prems" le run
      by (auto simp: rights_ids_loop.simps[of maxsize problem limit found_files])
  next
    case False
    then have small: "length ff' < 10" by simp
    from False have "length (rights_ids_loop maxsize problem (limit + 1) ff') \<le> 10"
      using run small by (intro "1.IH"[of res ff']) auto
    then show ?thesis using False run
      by (simp add: rights_ids_loop.simps[of maxsize problem limit found_files])
  qed
qed

section \<open>What the search on a store leaves unchanged\<close>

















section \<open>The claims\<close>

text \<open>
  C1. For every finite binary tree \<open>t\<close> and goal value \<open>g\<close>, the driver of
  \<^verbatim>\<open>element_search.py\<close> on \<^verbatim>\<open>UserSearchProblem(t, g)\<close> returns a node whose state
  carries the value \<open>g\<close> when some node of \<open>t\<close> carries \<open>g\<close>, and the failure
  sentinel when none does. The driver tries the bounds of \<^verbatim>\<open>range(1, sys.maxsize)\<close>
  only, which is enough for every tree of height below \<open>maxsize - 1\<close>, hence for
  every tree with fewer than \<open>maxsize\<close> nodes (lemma \<open>height_less_count_nodes\<close>), and
  no process holds \<^verbatim>\<open>sys.maxsize\<close> objects. On a higher tree without the goal the
  driver returns Python's \<^verbatim>\<open>None\<close> (lemma \<open>element_ids_range_used_up\<close>). The
  interpreter's recursion limit, which bounds the depth that \<^verbatim>\<open>len(node)\<close> can
  compute, is a resource of the run and is not part of the embedding.
\<close>

theorem C1_element_ids_finds_iff_present:
  assumes "height t + 1 < maxsize"
  shows "(g \<in> set_BinaryTreeNode t \<longrightarrow>
            (\<exists>n. element_iterative_deepening_search maxsize (UserSearchProblem t g)
                   = Some (Some (Found n)) \<and> bt_value (state n) = g))
       \<and> (g \<notin> set_BinaryTreeNode t \<longrightarrow>
            element_iterative_deepening_search maxsize (UserSearchProblem t g)
              = Some (Some Failure))"
proof (intro conjI impI)
  let ?p = "UserSearchProblem t g"
  assume "g \<in> set_BinaryTreeNode t"
  then obtain n where n: "element_depth_limited_search ?p 1 = Some (Found n)" "bt_value (state n) = g"
    using element_dls_loop_goal[of "[Node t None None 0]" g t 1 Failure]
    by (auto simp: element_depth_limited_search_def UserSearchProblem_def)
  have "element_ids_loop maxsize ?p 1 = Some (Some (Found n))"
    using n(1) assms by (intro element_ids_loop_cutoffs[where m = 1]) auto
  with n(2) show "\<exists>n. element_iterative_deepening_search maxsize ?p = Some (Some (Found n))
       \<and> bt_value (state n) = g"
    by (simp add: element_iterative_deepening_search_def)
next
  let ?p = "UserSearchProblem t g"
  assume ng: "g \<notin> set_BinaryTreeNode t"
  have dls: "element_depth_limited_search ?p l = Some (if l \<le> height t then Cutoff else Failure)" for l
    using element_dls_tree[of t g l] ng by simp
  have "element_ids_loop maxsize ?p 1 = Some (Some Failure)"
    using assms by (intro element_ids_loop_cutoffs[where m = "height t + 1"]) (auto simp: dls)
  then show "element_iterative_deepening_search maxsize ?p = Some (Some Failure)"
    by (simp add: element_iterative_deepening_search_def)
qed

theorem C1_element_ids_main_tree_witness:
  "height main_tree + 1 < sys_maxsize
   \<and> (\<exists>n. element_iterative_deepening_search sys_maxsize (UserSearchProblem main_tree 4)
            = Some (Some (Found n)) \<and> bt_value (state n) = 4)
   \<and> element_iterative_deepening_search sys_maxsize (UserSearchProblem main_tree 99)
       = Some (Some Failure)"
  using C1_element_ids_finds_iff_present [of main_tree sys_maxsize 4]
        C1_element_ids_finds_iff_present [of main_tree sys_maxsize 99]
  by (simp add: main_tree_def leaf_def sys_maxsize_def)

text \<open>
  C2. \<^verbatim>\<open>element_search.depth_limited_search\<close> on the tree of \<^verbatim>\<open>main\<close> with the goal
  8 and \<open>limit = 1\<close> returns the node of 8, whose depth is 3. Its parent, of depth 2, was
  expanded although its depth is not below the bound, and the returned node is one of the
  children that this expansion built and pushed. The loop of \<^verbatim>\<open>file_system_search.py\<close>,
  on the same problem and bound, stops at depth 1 and returns the cutoff sentinel.
\<close>

theorem C2_element_dls_expands_past_the_bound:
  "(\<exists>n q. element_depth_limited_search (UserSearchProblem main_tree 8) 1 = Some (Found n)
           \<and> bt_value (state n) = 8 \<and> len n = 3
           \<and> parent n = Some q \<and> len q = 2
           \<and> n \<in> set (expand (UserSearchProblem main_tree 8) q))
   \<and> file_system_depth_limited_search (UserSearchProblem main_tree 8) 1 = Cutoff"
  by (simp add: eval_element eval_file_system)

text \<open>
  C3. In the tree of \<^verbatim>\<open>main\<close> the only node of value 4 lies at depth 3.
  \<^verbatim>\<open>element_search.depth_limited_search\<close> returns it under each of the bounds 0, 1 and
  2, and the driver returns the result of its first pass, whose bound is 1. The loop of
  \<^verbatim>\<open>file_system_search.py\<close>, on the same problem, is cut off under the bound 2 and
  returns the node under the bound 3.
\<close>

theorem C3_element_dls_finds_goal_under_smaller_bound:
  "(\<exists>n. element_depth_limited_search (UserSearchProblem main_tree 4) 0 = Some (Found n)
         \<and> bt_value (state n) = 4 \<and> len n = 3)
   \<and> (\<exists>n. element_depth_limited_search (UserSearchProblem main_tree 4) 1 = Some (Found n)
         \<and> bt_value (state n) = 4 \<and> len n = 3)
   \<and> (\<exists>n. element_depth_limited_search (UserSearchProblem main_tree 4) 2 = Some (Found n)
         \<and> bt_value (state n) = 4 \<and> len n = 3)
   \<and> element_iterative_deepening_search sys_maxsize (UserSearchProblem main_tree 4)
       = Some (element_depth_limited_search (UserSearchProblem main_tree 4) 1)
   \<and> file_system_depth_limited_search (UserSearchProblem main_tree 4) 2 = Cutoff
   \<and> (\<exists>n. file_system_depth_limited_search (UserSearchProblem main_tree 4) 3 = Found n
         \<and> bt_value (state n) = 4 \<and> len n = 3)"
  by (simp add: eval_element eval_file_system numeral_2_eq_2 numeral_3_eq_3)

text \<open>
  C4. On \<open>small_os\<close> one file matches, at depth 3. The pass with bound 3 records it and
  is cut off at it; the pass with bound 4 visits the file again, records it a second time
  and ends without a cutoff. The list then holds two entries for one matching file.
\<close>

theorem C4_rights_search_records_a_file_twice:
  "rights_iterative_deepening_search sys_maxsize
     (WindowsFileSearchProblem small_os (FSNode ''C:'')) 3 []
   = [''C:/a/b/f'', ''C:/a/b/f'']"
  by (simp add: rights_iterative_deepening_search_def rights_ids_loop.simps sys_maxsize_def
      rights_depth_limited_search_def WindowsFileSearchProblem_def
      WindowsFileSearchProblem_actions_def WindowsFileSearchProblem_is_goal_def
      small_os_def expand_eq push_all_def Let_def)

text \<open>
  C5. In a pass of \<^verbatim>\<open>element_search.depth_limited_search\<close>, when a node that is no goal
  is popped, its children go onto the stack in the order of \<^verbatim>\<open>actions\<close>, so the loop
  goes on with the reversed list of children on top of the rest, the last child first.
  Hence, when an action \<open>a\<close> of the node leads to a goal: a pass that returns, returns
  the child of \<open>a\<close> or a node found under the child of an action after \<open>a\<close>; it never
  returns the child of an action before \<open>a\<close>, goal or not; and it returns the child of
  \<open>a\<close> when the actions after \<open>a\<close> lead to states that are no goals and have no
  actions.
\<close>

theorem C5_later_sibling_is_returned:
  assumes "\<not> is_goal p (state n)"
    and "actions p (state n) = xs @ a # ys"
    and "is_goal p (result p (state n) a)"
  shows "element_dls_loop p limit (n # rest) res
           = element_dls_loop p limit (rev (expand p n) @ rest)
               (if limit \<le> len n then Cutoff else res)
         \<and> (\<forall>out. element_dls_loop p limit (n # rest) res = Some out \<longrightarrow>
               out = Found (child p n a)
               \<or> (\<exists>m y. out = Found m \<and> y \<in> set ys \<and> under m (child p n y)))
         \<and> (\<forall>x. x \<notin> set (a # ys) \<longrightarrow>
               element_dls_loop p limit (n # rest) res \<noteq> Some (Found (child p n x)))
         \<and> ((\<forall>b \<in> set ys. \<not> is_goal p (result p (state n) b)
                            \<and> actions p (result p (state n) b) = []) \<longrightarrow>
              element_dls_loop p limit (n # rest) res = Some (Found (child p n a)))"
proof -
  let ?res = "if limit \<le> len n then Cutoff else res"
  let ?fr = "child p n a # rev (map (child p n) xs) @ rest"
  let ?late = "rev (map (child p n) ys)"
  have step: "element_dls_loop p limit (n # rest) res
        = element_dls_loop p limit (rev (expand p n) @ rest) ?res"
    using assms(1) by (simp add: element_dls_loop_Cons push_all_rev)
  then have unfolded: "element_dls_loop p limit (n # rest) res
        = element_dls_loop p limit (?late @ ?fr) ?res"
    using assms(2) by (simp add: expand_child)
  have at_a: "element_dls_loop p limit ?fr r = Some (Found (child p n a))" for r
    using assms(3) by (simp add: element_dls_loop_Cons child_def)
  have general: "out = Found (child p n a)
        \<or> (\<exists>m y. out = Found m \<and> y \<in> set ys \<and> under m (child p n y))"
    if "element_dls_loop p limit (n # rest) res = Some out" for out
  proof -
    from that unfolded have "element_dls_loop p limit (?late @ ?fr) ?res = Some out" by simp
    from element_dls_loop_prefix[OF this] show ?thesis
    proof
      assume "\<exists>m c. out = Found m \<and> c \<in> set ?late \<and> under m c"
      then show ?thesis by auto
    next
      assume "\<exists>res'. element_dls_loop p limit ?fr res' = Some out"
      then show ?thesis using at_a by auto
    qed
  qed
  have never: "element_dls_loop p limit (n # rest) res \<noteq> Some (Found (child p n x))"
    if "x \<notin> set (a # ys)" for x
  proof
    assume "element_dls_loop p limit (n # rest) res = Some (Found (child p n x))"
    from general[OF this] show False
    proof
      assume "Found (child p n x) = Found (child p n a)"
      then have "x = a" by (simp add: child_def)
      then show False using that by simp
    next
      assume "\<exists>m y. Found (child p n x) = Found m \<and> y \<in> set ys \<and> under m (child p n y)"
      then obtain y where "y \<in> set ys" "under (child p n x) (child p n y)" by auto
      then show False using under_child_of that by fastforce
    qed
  qed
  have dead: "element_dls_loop p limit (n # rest) res = Some (Found (child p n a))"
    if "\<forall>b \<in> set ys. \<not> is_goal p (result p (state n) b)
                       \<and> actions p (result p (state n) b) = []"
  proof -
    have "\<forall>c \<in> set ?late. \<not> is_goal p (state c) \<and> actions p (state c) = []"
      using that by (auto simp: child_def)
    then obtain res' where "element_dls_loop p limit (?late @ ?fr) ?res
          = element_dls_loop p limit ?fr res'"
      using element_dls_loop_dead_ends by blast
    then show ?thesis using unfolded at_a by simp
  qed
  from step general never dead show ?thesis by blast
qed

theorem C5_two_goals_witness:
  "\<not> is_goal (UserSearchProblem two_goals 7) two_goals
   \<and> actions (UserSearchProblem two_goals 7) two_goals
       = [BinaryTreeNode 7 (Some (leaf 0)) None] @ leaf 7 # []
   \<and> is_goal (UserSearchProblem two_goals 7) (BinaryTreeNode 7 (Some (leaf 0)) None)
   \<and> is_goal (UserSearchProblem two_goals 7) (leaf 7)
   \<and> element_dls_loop (UserSearchProblem two_goals 7) 1 [Node two_goals None None 0] Failure
       = Some (Found (Node (leaf 7) (Some (Node two_goals None None 0)) (Some (leaf 7)) 1))"
proof -
  let ?p = "UserSearchProblem two_goals 7"
  let ?n = "Node two_goals None None 0 :: (int BinaryTreeNode, int BinaryTreeNode) node"
  let ?l = "BinaryTreeNode 7 (Some (leaf 0)) None :: int BinaryTreeNode"
  have h1: "\<not> is_goal ?p (state ?n)"
    by (simp add: UserSearchProblem_def two_goals_def)
  have h2: "actions ?p (state ?n) = [?l] @ leaf 7 # []"
    by (simp add: UserSearchProblem_def UserSearchProblem_actions_def two_goals_def Let_def)
  have h3: "is_goal ?p (result ?p (state ?n) (leaf 7))"
    by (simp add: UserSearchProblem_def leaf_def)
  have h4: "\<forall>b \<in> set []. \<not> is_goal ?p (result ?p (state ?n) b)
                           \<and> actions ?p (result ?p (state ?n) b) = []"
    by simp
  have "element_dls_loop ?p 1 [?n] Failure = Some (Found (child ?p ?n (leaf 7)))"
    using C5_later_sibling_is_returned [OF h1 h2 h3, of 1 "[]" Failure] h4 by blast
  moreover have "child ?p ?n (leaf 7) = Node (leaf 7) (Some ?n) (Some (leaf 7)) 1"
    by (simp add: child_def UserSearchProblem_def)
  moreover have "is_goal ?p ?l"
    by (simp add: UserSearchProblem_def)
  ultimately show ?thesis using h1 h2 h3 by (simp add: UserSearchProblem_def)
qed

text \<open>
  C6. In the tree of \<^verbatim>\<open>main\<close> with the goal 7 the initial state is no goal and has two
  actions. \<^verbatim>\<open>element_search.depth_limited_search\<close> with \<open>limit = 0\<close> returns the node
  of 7, of depth 2, and not the cutoff sentinel; the loop of
  \<^verbatim>\<open>file_system_search.py\<close> returns the cutoff sentinel there.
\<close>

theorem C6_element_dls_limit_0_returns_a_node:
  "\<not> is_goal (UserSearchProblem main_tree 7) (initial (UserSearchProblem main_tree 7))
   \<and> length (actions (UserSearchProblem main_tree 7) (initial (UserSearchProblem main_tree 7))) = 2
   \<and> (\<exists>n. element_depth_limited_search (UserSearchProblem main_tree 7) 0 = Some (Found n)
         \<and> bt_value (state n) = 7 \<and> len n = 2)
   \<and> file_system_depth_limited_search (UserSearchProblem main_tree 7) 0 = Cutoff"
  by (simp add: eval_element eval_file_system)

text \<open>
  C7. For every node \<open>n\<close> that a pass or the driver of \<^verbatim>\<open>file_system_search.py\<close>
  returns: following the parent references from \<open>n\<close> to the root and reversing gives
  the states passed from the initial state when the actions recorded along the parent
  chain of \<open>n\<close> are applied in turn with \<^verbatim>\<open>result\<close>; \<^verbatim>\<open>path_states(n)\<close> is the list
  of the values of these states; and applying the recorded actions from the initial state
  ends in the state of \<open>n\<close>.
\<close>

theorem C7_path_states_round_trip:
  fixes p :: "('v TreeNode, 'a) problem"
  assumes "file_system_depth_limited_search p limit = Found n
           \<or> file_system_iterative_deepening_search maxsize p = Some (Found n)"
  shows "rev (walk_parents n) = trajectory p (initial p) (path_actions n)
         \<and> path_states n = map tn_value (trajectory p (initial p) (path_actions n))
         \<and> foldl (result p) (initial p) (path_actions n) = state n
         \<and> last (trajectory p (initial p) (path_actions n)) = state n"
proof -
  have "built_by p n"
    using assms
  proof
    assume "file_system_depth_limited_search p limit = Found n"
    then show ?thesis using file_system_dls_found by blast
  next
    assume "file_system_iterative_deepening_search maxsize p = Some (Found n)"
    then obtain l where "Found n = file_system_depth_limited_search p l"
      using file_system_ids_loop_result[of maxsize p 1 "Found n"]
      by (auto simp: file_system_iterative_deepening_search_def)
    then show ?thesis using file_system_dls_found[of p l n] by simp
  qed
  moreover have "last (trajectory p s as) = foldl (result p) s as" for s as
    by (induction as arbitrary: s) (auto simp: trajectory_nonempty)
  ultimately show ?thesis
    using built_by_path[of p n] built_by_path_states[of p n] built_by_walk[of p n] by simp
qed

theorem C7_main_files_witness:
  "file_system_iterative_deepening_search sys_maxsize (FileSearchProblem main_files ''file_d'')
     = Some (Found file_d_node)
   \<and> path_states file_d_node = [''root'', ''subdir_1'', ''subdir_3'', ''file_d'']
   \<and> rev (walk_parents file_d_node)
       = trajectory (FileSearchProblem main_files ''file_d'') main_files
           (path_actions file_d_node)
   \<and> path_states file_d_node
       = map tn_value (trajectory (FileSearchProblem main_files ''file_d'') main_files
                         (path_actions file_d_node))
   \<and> foldl (result (FileSearchProblem main_files ''file_d'')) main_files
         (path_actions file_d_node) = TreeNode ''file_d'' []"
proof -
  let ?p = "FileSearchProblem main_files ''file_d''"
  have ids: "file_system_iterative_deepening_search sys_maxsize ?p = Some (Found file_d_node)"
    by (rule main_files_search)
  have init: "initial ?p = main_files"
    by (simp add: FileSearchProblem_def)
  have st: "state file_d_node = TreeNode ''file_d'' []"
    by (simp add: file_d_node_def Let_def)
  have ps: "path_states file_d_node = [''root'', ''subdir_1'', ''subdir_3'', ''file_d'']"
    by (simp add: file_d_node_def main_files_def Let_def)
  from C7_path_states_round_trip [of ?p 0 file_d_node sys_maxsize] ids init st ps
  show ?thesis by simp
qed

text \<open>
  C8. Whatever the problem, a result that the driver of \<^verbatim>\<open>element_search.py\<close> or of
  \<^verbatim>\<open>file_system_search.py\<close> returns from a pass is never the cutoff sentinel: it is
  the failure sentinel or a node whose state is a goal.
\<close>

theorem C8_cutoff_never_returned:
  "(\<forall>r. element_iterative_deepening_search maxsize p = Some (Some r) \<longrightarrow>
        r \<noteq> Cutoff \<and> (r = Failure \<or> (\<exists>n. r = Found n \<and> is_goal p (state n))))
   \<and> (\<forall>r. file_system_iterative_deepening_search maxsize p = Some r \<longrightarrow>
        r \<noteq> Cutoff \<and> (r = Failure \<or> (\<exists>n. r = Found n \<and> is_goal p (state n))))"
proof (intro conjI allI impI)
  fix r assume "element_iterative_deepening_search maxsize p = Some (Some r)"
  then obtain l where l: "element_depth_limited_search p l = Some r" "r \<noteq> Cutoff"
    using element_ids_loop_result[of maxsize p 1 r]
    by (auto simp: element_iterative_deepening_search_def)
  show "r \<noteq> Cutoff" by fact
  show "r = Failure \<or> (\<exists>n. r = Found n \<and> is_goal p (state n))"
    using element_dls_loop_found[of p l "[Node (initial p) None None 0]" Failure r] l
    by (auto simp: element_depth_limited_search_def)
next
  fix r assume "file_system_iterative_deepening_search maxsize p = Some r"
  then obtain l where l: "r = file_system_depth_limited_search p l" "r \<noteq> Cutoff"
    using file_system_ids_loop_result[of maxsize p 1 r]
    by (auto simp: file_system_iterative_deepening_search_def)
  show "r \<noteq> Cutoff" by fact
  show "r = Failure \<or> (\<exists>n. r = Found n \<and> is_goal p (state n))"
    using file_system_dls_loop_found[of p l "[Node (initial p) None None 0]" Failure] l
    by (auto simp: file_system_depth_limited_search_def)
qed

theorem C8_main_witness:
  "(\<exists>n. element_iterative_deepening_search sys_maxsize (UserSearchProblem main_tree 4)
           = Some (Some (Found n)) \<and> is_goal (UserSearchProblem main_tree 4) (state n))
   \<and> element_iterative_deepening_search sys_maxsize (UserSearchProblem main_tree 99)
       = Some (Some Failure)
   \<and> file_system_iterative_deepening_search sys_maxsize (FileSearchProblem main_files ''file_d'')
       = Some (Found file_d_node)
   \<and> is_goal (FileSearchProblem main_files ''file_d'') (state file_d_node)
   \<and> file_system_iterative_deepening_search sys_maxsize (FileSearchProblem main_files ''file_x'')
       = Some Failure"
proof -
  have e4: "\<exists>n. element_iterative_deepening_search sys_maxsize (UserSearchProblem main_tree 4)
              = Some (Some (Found n))"
    by (simp add: element_iterative_deepening_search_def element_ids_loop.simps sys_maxsize_def
        element_depth_limited_search_def element_dls_loop_Nil element_dls_loop_Cons
        UserSearchProblem_def UserSearchProblem_actions_def main_tree_def leaf_def expand_eq
        push_all_def Let_def)
  have e99: "element_iterative_deepening_search sys_maxsize (UserSearchProblem main_tree 99)
              = Some (Some Failure)"
    by (simp add: element_iterative_deepening_search_def element_ids_loop.simps sys_maxsize_def
        element_depth_limited_search_def element_dls_loop_Nil element_dls_loop_Cons
        UserSearchProblem_def UserSearchProblem_actions_def main_tree_def leaf_def expand_eq
        push_all_def Let_def)
  have fx: "file_system_iterative_deepening_search sys_maxsize
              (FileSearchProblem main_files ''file_x'') = Some Failure"
    by (simp add: file_system_iterative_deepening_search_def file_system_ids_loop.simps
        sys_maxsize_def file_system_depth_limited_search_def FileSearchProblem_def main_files_def
        expand_eq push_all_def)
  from e4 obtain n where n: "element_iterative_deepening_search sys_maxsize
       (UserSearchProblem main_tree 4) = Some (Some (Found n))" ..
  have "is_goal (UserSearchProblem main_tree 4) (state n)"
    using C8_cutoff_never_returned [of sys_maxsize "UserSearchProblem main_tree 4"] n by simp
  moreover have "is_goal (FileSearchProblem main_files ''file_d'') (state file_d_node)"
    using C8_cutoff_never_returned [of sys_maxsize "FileSearchProblem main_files ''file_d''"]
      main_files_search by simp
  ultimately show ?thesis using n e99 fx main_files_search by simp
qed





end
